theory Spec2Isabelle
  imports Complex_Main
begin

section \<open>JavaScript numbers\<close>

text \<open>
  The feature vectors of the recognition backend are JavaScript arrays of numbers,
  that is, IEEE 754 binary64 values. A number is modelled as NaN, one of the two
  infinities, or a finite value \<open>Fin x\<close> with \<open>x\<close> a real. The sign of zero is not
  modelled: the program never divides by a negative zero (its only divisor is a
  product of two square roots) and never tells the two zeros apart otherwise.
\<close>

datatype jsnum = NaN | NInf | Fin real | PInf

subsection \<open>Rounding to binary64\<close>

text \<open>
  Every arithmetic operation returns the exact result rounded to the nearest binary64
  value, ties to the value with an even significand. \<open>pow2 e\<close> is 2 to the integer
  power \<open>e\<close>. \<open>binade x\<close> is the exponent of the power of two at or below the magnitude
  of \<open>x\<close>, held at -1022 in the subnormal range, so that \<open>ulp x\<close> is the spacing of the
  binary64 values around \<open>x\<close>: 53 significant bits, the smallest spacing \<open>pow2 (-1074)\<close>.
  \<open>rne\<close> rounds a real to the nearest integer, ties to even. \<open>fl x\<close> is the rounded
  value; a result of magnitude \<open>pow2 1024\<close> or more after rounding overflows to an
  infinity, and a result of magnitude at most \<open>pow2 (-1075)\<close> underflows to 0.
\<close>

definition pow2 :: "int \<Rightarrow> real" where
  "pow2 e = 2 powr of_int e"

definition rne :: "real \<Rightarrow> int" where
  "rne q =
     (let f = \<lfloor>q\<rfloor>
      in if q - of_int f < 1 / 2 then f
         else if 1 / 2 < q - of_int f then f + 1
         else if even f then f else f + 1)"

definition binade :: "real \<Rightarrow> int" where
  "binade x = max \<lfloor>log 2 \<bar>x\<bar>\<rfloor> (- 1022)"

definition ulp :: "real \<Rightarrow> real" where
  "ulp x = pow2 (binade x - 52)"

definition fl :: "real \<Rightarrow> jsnum" where
  "fl x =
     (if x = 0 then Fin 0
      else let y = of_int (rne (x / ulp x)) * ulp x
           in if pow2 1024 \<le> \<bar>y\<bar> then (if 0 < x then PInf else NInf) else Fin y)"

subsection \<open>The operators\<close>

text \<open>
  The operators \<open>+\<close>, \<open>*\<close>, \<open>/\<close> and \<open>Math.sqrt\<close>. On finite operands the exact
  result is rounded by \<open>fl\<close>. The special values follow IEEE 754:
  \<open>Infinity - Infinity\<close>, \<open>0 * Infinity\<close>, \<open>0 / 0\<close>, \<open>Infinity / Infinity\<close> and the
  square root of a negative number are NaN, NaN is absorbing, and a non-zero number
  divided by zero is an infinity.
\<close>

fun js_add :: "jsnum \<Rightarrow> jsnum \<Rightarrow> jsnum" where
  "js_add NaN _ = NaN"
| "js_add _ NaN = NaN"
| "js_add (Fin a) (Fin b) = fl (a + b)"
| "js_add PInf NInf = NaN"
| "js_add NInf PInf = NaN"
| "js_add PInf _ = PInf"
| "js_add _ PInf = PInf"
| "js_add NInf _ = NInf"
| "js_add _ NInf = NInf"

fun js_mul :: "jsnum \<Rightarrow> jsnum \<Rightarrow> jsnum" where
  "js_mul NaN _ = NaN"
| "js_mul _ NaN = NaN"
| "js_mul (Fin a) (Fin b) = fl (a * b)"
| "js_mul (Fin a) PInf = (if a = 0 then NaN else if 0 < a then PInf else NInf)"
| "js_mul (Fin a) NInf = (if a = 0 then NaN else if 0 < a then NInf else PInf)"
| "js_mul PInf (Fin b) = (if b = 0 then NaN else if 0 < b then PInf else NInf)"
| "js_mul NInf (Fin b) = (if b = 0 then NaN else if 0 < b then NInf else PInf)"
| "js_mul PInf PInf = PInf"
| "js_mul PInf NInf = NInf"
| "js_mul NInf PInf = NInf"
| "js_mul NInf NInf = PInf"

fun js_div :: "jsnum \<Rightarrow> jsnum \<Rightarrow> jsnum" where
  "js_div NaN _ = NaN"
| "js_div _ NaN = NaN"
| "js_div (Fin a) (Fin b) =
     (if b = 0 then (if a = 0 then NaN else if 0 < a then PInf else NInf)
      else fl (a / b))"
| "js_div (Fin a) PInf = Fin 0"
| "js_div (Fin a) NInf = Fin 0"
| "js_div PInf (Fin b) = (if 0 \<le> b then PInf else NInf)"
| "js_div NInf (Fin b) = (if 0 \<le> b then NInf else PInf)"
| "js_div PInf PInf = NaN"
| "js_div PInf NInf = NaN"
| "js_div NInf PInf = NaN"
| "js_div NInf NInf = NaN"

fun js_sqrt :: "jsnum \<Rightarrow> jsnum" where
  "js_sqrt NaN = NaN"
| "js_sqrt NInf = NaN"
| "js_sqrt (Fin a) = (if a < 0 then NaN else fl (sqrt a))"
| "js_sqrt PInf = PInf"

text \<open>
  The comparison operators \<^verbatim>\<open>>\<close> and \<^verbatim>\<open>>=\<close> on numbers: every comparison with
  NaN is false.
\<close>

fun js_gt :: "jsnum \<Rightarrow> jsnum \<Rightarrow> bool" where
  "js_gt NaN _ = False"
| "js_gt _ NaN = False"
| "js_gt (Fin a) (Fin b) = (b < a)"
| "js_gt PInf PInf = False"
| "js_gt PInf _ = True"
| "js_gt NInf _ = False"
| "js_gt (Fin a) NInf = True"
| "js_gt (Fin a) PInf = False"

fun js_ge :: "jsnum \<Rightarrow> jsnum \<Rightarrow> bool" where
  "js_ge NaN _ = False"
| "js_ge _ NaN = False"
| "js_ge (Fin a) (Fin b) = (b \<le> a)"
| "js_ge PInf _ = True"
| "js_ge NInf NInf = True"
| "js_ge NInf _ = False"
| "js_ge (Fin a) NInf = True"
| "js_ge (Fin a) PInf = False"

section \<open>The similarity function\<close>

text \<open>
  \<^verbatim>\<open>
  function calculateSimilarity(features1, features2) {
    if (features1.length !== features2.length) return 0;
    let dotProduct = 0; let norm1 = 0; let norm2 = 0;
    for (let i = 0; i < features1.length; i++) {
      dotProduct += features1[i] * features2[i];
      norm1 += features1[i] * features1[i];
      norm2 += features2[i] * features2[i];
    }
    return dotProduct / (Math.sqrt(norm1) * Math.sqrt(norm2));
  }
  \<close>
  The loop is the function \<open>simLoop\<close> on the index and the three accumulators. It is
  entered only with arrays of equal length, so every read is in range. The function
  and the matching loop below are the same text in the three copies of the backend.
\<close>

type_synonym acc = "jsnum \<times> jsnum \<times> jsnum"

function simLoop :: "jsnum list \<Rightarrow> jsnum list \<Rightarrow> nat \<Rightarrow> acc \<Rightarrow> acc" where
  "simLoop features1 features2 i (dotProduct, norm1, norm2) =
     (if i < length features1
      then simLoop features1 features2 (Suc i)
             (js_add dotProduct (js_mul (features1 ! i) (features2 ! i)),
              js_add norm1 (js_mul (features1 ! i) (features1 ! i)),
              js_add norm2 (js_mul (features2 ! i) (features2 ! i)))
      else (dotProduct, norm1, norm2))"
  by pat_completeness auto
termination
  by (relation "measure (\<lambda>(features1, features2, i, a). length features1 - i)") auto

declare simLoop.simps [simp del]

definition calculateSimilarity :: "jsnum list \<Rightarrow> jsnum list \<Rightarrow> jsnum" where
  "calculateSimilarity features1 features2 =
     (if length features1 \<noteq> length features2 then Fin 0
      else (case simLoop features1 features2 0 (Fin 0, Fin 0, Fin 0) of
              (dotProduct, norm1, norm2) \<Rightarrow>
                js_div dotProduct (js_mul (js_sqrt norm1) (js_sqrt norm2))))"

text \<open>
  The value of \<open>norm1\<close> when the loop ends on a vector paired with itself: the computed
  sum of the squares of its components.
\<close>

definition squaredNorm :: "jsnum list \<Rightarrow> jsnum" where
  "squaredNorm v =
     (case simLoop v v 0 (Fin 0, Fin 0, Fin 0) of (dotProduct, norm1, norm2) \<Rightarrow> norm1)"

section \<open>The matching pass of \<open>/api/recognize\<close>\<close>

text \<open>
  A row of the query \<open>SELECT id, title, artist, year, description, museum, wiki_link,
  features FROM paintings\<close>. The column \<open>features\<close> is text, written only by
  \<open>JSON.stringify\<close> of an extracted vector and read back by \<open>JSON.parse\<close>; the model
  holds the parsed array of numbers, and \<open>None\<close> stands for a value that the test
  \<open>if (painting.features)\<close> rejects (SQL \<open>NULL\<close> or the empty text). An entry that
  \<open>JSON.stringify\<close> wrote as \<open>null\<close> multiplies as 0 and is held as 0. Text that is
  not the JSON of an array, which the program never writes, makes the loop raise; the
  section on stored rows below models the loop on any text.
\<close>

record painting =
  id :: int
  title :: string
  artist :: string
  year :: int
  description :: string
  museum :: string
  wiki_link :: string
  features :: "jsnum list option"

text \<open>
  \<^verbatim>\<open>
  let bestMatch = null;
  let highestSimilarity = 0;
  for (const painting of result.rows) {
    if (painting.features) {
      const storedFeatures = JSON.parse(painting.features);
      const similarity = calculateSimilarity(uploadedFeatures, storedFeatures);
      if (similarity > highestSimilarity) {
        highestSimilarity = similarity;
        bestMatch = painting;
      }
    }
  }
  \<close>
  The state of the loop is the pair \<open>(bestMatch, highestSimilarity)\<close>.
\<close>

type_synonym best = "painting option \<times> jsnum"

fun scan :: "jsnum list \<Rightarrow> painting list \<Rightarrow> best \<Rightarrow> best" where
  "scan uploadedFeatures [] st = st"
| "scan uploadedFeatures (p # rows) (bestMatch, highestSimilarity) =
     (case features p of
        None \<Rightarrow> scan uploadedFeatures rows (bestMatch, highestSimilarity)
      | Some storedFeatures \<Rightarrow>
          (let similarity = calculateSimilarity uploadedFeatures storedFeatures
           in if js_gt similarity highestSimilarity
              then scan uploadedFeatures rows (Some p, similarity)
              else scan uploadedFeatures rows (bestMatch, highestSimilarity)))"

text \<open>
  \<^verbatim>\<open>
  const confidenceThreshold = 0.6;
  if (bestMatch && highestSimilarity > confidenceThreshold) {
    ... res.json({ success: true, painting: {...}, confidence: highestSimilarity, ... });
  } else {
    ... res.json({ success: false, ..., confidence: highestSimilarity });
  }
  \<close>
  The two responses are the two results of the matcher: \<open>Match\<close> carries the selected
  row and its score, \<open>NoMatch\<close> the best score seen. The literal \<open>0.6\<close> denotes the
  binary64 value nearest to six tenths.
\<close>

datatype match_result = Match painting jsnum | NoMatch jsnum

definition confidenceThreshold :: jsnum where
  "confidenceThreshold = fl (6 / 10)"

definition recognize :: "jsnum list \<Rightarrow> painting list \<Rightarrow> match_result" where
  "recognize uploadedFeatures rows =
     (case scan uploadedFeatures rows (None, Fin 0) of
        (bestMatch, highestSimilarity) \<Rightarrow>
          (case bestMatch of
             Some p \<Rightarrow>
               if js_gt highestSimilarity confidenceThreshold
               then Match p highestSimilarity
               else NoMatch highestSimilarity
           | None \<Rightarrow> NoMatch highestSimilarity))"

fun score :: "match_result \<Rightarrow> jsnum" where
  "score (Match p s) = s"
| "score (NoMatch s) = s"

text \<open>
  The similarity scores of the eligible candidates (those with a feature vector), in
  input order: the values the loop compares.
\<close>

fun scores :: "jsnum list \<Rightarrow> painting list \<Rightarrow> jsnum list" where
  "scores q [] = []"
| "scores q (p # rows) =
     (case features p of
        None \<Rightarrow> scores q rows
      | Some f \<Rightarrow> calculateSimilarity q f # scores q rows)"

section \<open>The matching pass on stored rows\<close>

text \<open>
  The loop reads the column \<open>features\<close> as text and parses it itself, and two of its
  steps can raise: \<open>JSON.parse\<close> raises a SyntaxError on text that is not JSON, and
  \<open>features2.length\<close> in \<open>calculateSimilarity\<close> raises a TypeError when the text is the
  JSON \<open>null\<close>. The handler of the route catches both and answers HTTP 500.

  \<open>parsed\<close> is the value \<open>JSON.parse\<close> returns, as far as \<open>calculateSimilarity\<close> can
  tell values apart: \<open>null\<close>; a value whose \<open>length\<close> is not a number (a number, a
  boolean, an object), for which the length test returns 0; or an array (or array-like
  value), held as the numbers its entries multiply as. \<open>column\<close> is the content of the
  column: blank (SQL \<open>NULL\<close> or the empty text, which \<open>if (painting.features)\<close>
  skips), text that \<open>JSON.parse\<close> rejects, or text that it accepts.
\<close>

datatype exn = SyntaxError | TypeError

datatype parsed = Null | Unsized | Array "jsnum list"

datatype column = Blank | Invalid | Valid parsed

record row =
  row_id :: int
  row_title :: string
  row_artist :: string
  row_year :: int
  row_description :: string
  row_museum :: string
  row_wiki_link :: string
  row_features :: column

text \<open>\<open>calculateSimilarity\<close> with any parsed value as its second argument.\<close>

fun calculateSimilarityAny :: "jsnum list \<Rightarrow> parsed \<Rightarrow> exn + jsnum" where
  "calculateSimilarityAny features1 Null = Inl TypeError"
| "calculateSimilarityAny features1 Unsized = Inr (Fin 0)"
| "calculateSimilarityAny features1 (Array features2) =
     Inr (calculateSimilarity features1 features2)"

text \<open>The loop and the threshold test, with a raised exception as the result \<open>Inl\<close>.\<close>

type_synonym best_row = "row option \<times> jsnum"

fun scanRows :: "jsnum list \<Rightarrow> row list \<Rightarrow> best_row \<Rightarrow> exn + best_row" where
  "scanRows uploadedFeatures [] st = Inr st"
| "scanRows uploadedFeatures (r # rows) (bestMatch, highestSimilarity) =
     (case row_features r of
        Blank \<Rightarrow> scanRows uploadedFeatures rows (bestMatch, highestSimilarity)
      | Invalid \<Rightarrow> Inl SyntaxError
      | Valid storedFeatures \<Rightarrow>
          (case calculateSimilarityAny uploadedFeatures storedFeatures of
             Inl e \<Rightarrow> Inl e
           | Inr similarity \<Rightarrow>
               if js_gt similarity highestSimilarity
               then scanRows uploadedFeatures rows (Some r, similarity)
               else scanRows uploadedFeatures rows (bestMatch, highestSimilarity)))"

text \<open>A stored row whose text is blank or an array, as a row of the model above.\<close>

definition parsed_row :: "row \<Rightarrow> painting" where
  "parsed_row r =
     \<lparr>id = row_id r, title = row_title r, artist = row_artist r, year = row_year r,
      description = row_description r, museum = row_museum r, wiki_link = row_wiki_link r,
      features = (case row_features r of Valid (Array f) \<Rightarrow> Some f | _ \<Rightarrow> None)\<rparr>"

definition recognizeRows :: "jsnum list \<Rightarrow> row list \<Rightarrow> exn + match_result" where
  "recognizeRows uploadedFeatures rows =
     (case scanRows uploadedFeatures rows (None, Fin 0) of
        Inl e \<Rightarrow> Inl e
      | Inr (bestMatch, highestSimilarity) \<Rightarrow>
          Inr (case bestMatch of
                 Some r \<Rightarrow>
                   if js_gt highestSimilarity confidenceThreshold
                   then Match (parsed_row r) highestSimilarity
                   else NoMatch highestSimilarity
               | None \<Rightarrow> NoMatch highestSimilarity))"

section \<open>One turn of the similarity loop\<close>

text \<open>The body of the loop, applied to the pair of components read at one index.\<close>

fun step :: "acc \<Rightarrow> jsnum \<times> jsnum \<Rightarrow> acc" where
  "step (d, n1, n2) (x, y) =
     (js_add d (js_mul x y), js_add n1 (js_mul x x), js_add n2 (js_mul y y))"

section \<open>The best score of a list\<close>

text \<open>
  The best score among the eligible candidates, as the specification speaks of it: a
  score of the list that is a number and that no score of the list exceeds.
\<close>

definition best_score :: "jsnum \<Rightarrow> jsnum list \<Rightarrow> bool" where
  "best_score s ss \<longleftrightarrow> s \<noteq> NaN \<and> s \<in> set ss \<and> (\<forall>t\<in>set ss. \<not> js_gt t s)"

section \<open>Catalog rows for the examples\<close>

text \<open>
  A processed row with identifier \<open>i\<close> and stored vector \<open>f\<close>, and a row that has
  not been processed yet. The metadata plays no part in the matching pass.
\<close>

definition candidate :: "int \<Rightarrow> jsnum list \<Rightarrow> painting" where
  "candidate i f =
     \<lparr>id = i, title = '''', artist = '''', year = 0, description = '''', museum = '''',
      wiki_link = '''', features = Some f\<rparr>"

definition unprocessed :: "int \<Rightarrow> painting" where
  "unprocessed i =
     \<lparr>id = i, title = '''', artist = '''', year = 0, description = '''', museum = '''',
      wiki_link = '''', features = None\<rparr>"

definition stored :: "int \<Rightarrow> column \<Rightarrow> row" where
  "stored i t =
     \<lparr>row_id = i, row_title = '''', row_artist = '''', row_year = 0, row_description = '''',
      row_museum = '''', row_wiki_link = '''', row_features = t\<rparr>"

section \<open>Properties of the rounding\<close>

lemma pow2_pos [simp]: "0 < pow2 e"
  by (simp add: pow2_def)

lemma pow2_nonneg [simp]: "0 \<le> pow2 e"
  by (simp add: pow2_def)

lemma pow2_not_le_0 [simp]: "\<not> pow2 e \<le> 0"
  by (simp add: pow2_def not_le)

lemma pow2_neq_0 [simp]: "pow2 e \<noteq> 0"
  by (simp add: pow2_def)

lemma pow2_add: "pow2 (a + b) = pow2 a * pow2 b"
  by (simp add: pow2_def powr_add)

lemma pow2_le_iff [simp]: "pow2 a \<le> pow2 b \<longleftrightarrow> a \<le> b"
  by (simp add: pow2_def)

lemma pow2_less_iff [simp]: "pow2 a < pow2 b \<longleftrightarrow> a < b"
  by (simp add: pow2_def)

lemma pow2_nat: "pow2 (int n) = 2 ^ n"
  by (simp add: pow2_def powr_realpow)

lemma pow2_neg_nat: "pow2 (- int n) = 1 / 2 ^ n"
  by (simp add: pow2_def powr_minus_divide powr_realpow)

lemma pow2_0 [simp]: "pow2 0 = 1"
  by (simp add: pow2_def)

lemma pow2_1 [simp]: "pow2 1 = 2"
  by (simp add: pow2_def)

lemma pow2_neg_1 [simp]: "pow2 (- 1) = 1 / 2"
  by (simp add: pow2_def powr_minus_divide)

lemma pow2_numeral: "pow2 (numeral k) = 2 ^ numeral k"
  using pow2_nat [of "numeral k"] by simp

lemma pow2_neg_numeral: "pow2 (- numeral k) = 1 / 2 ^ numeral k"
  using pow2_neg_nat [of "numeral k"] by simp

lemma floor_log2_iff: "0 < x \<Longrightarrow> \<lfloor>log 2 x\<rfloor> = k \<longleftrightarrow> pow2 k \<le> x \<and> x < pow2 (k + 1)"
  by (simp add: pow2_def floor_log_eq_powr_iff)

lemma le_floor_log2_iff: "0 < x \<Longrightarrow> k \<le> \<lfloor>log 2 x\<rfloor> \<longleftrightarrow> pow2 k \<le> x"
  by (simp add: pow2_def le_floor_iff le_log_iff)

lemma floor_log2_less_iff: "0 < x \<Longrightarrow> \<lfloor>log 2 x\<rfloor> < k \<longleftrightarrow> x < pow2 k"
  by (simp add: pow2_def floor_less_iff log_less_iff)

lemma rne_of_int [simp]: "rne (of_int k) = k"
  by (simp add: rne_def)

lemma rne_cases: "rne q = \<lfloor>q\<rfloor> \<or> rne q = \<lfloor>q\<rfloor> + 1"
  by (simp add: rne_def Let_def)

lemma rne_near: "\<bar>of_int (rne q) - q\<bar> \<le> 1 / 2"
  unfolding rne_def Let_def by (auto simp: abs_le_iff)

lemma rne_ge: "of_int m \<le> q \<Longrightarrow> m \<le> rne q"
proof -
  assume "of_int m \<le> q"
  then have "m \<le> \<lfloor>q\<rfloor>" by (simp add: le_floor_iff)
  then show ?thesis using rne_cases [of q] by linarith
qed

lemma rne_le: "q \<le> of_int m \<Longrightarrow> rne q \<le> m"
proof -
  assume a: "q \<le> of_int m"
  show ?thesis
  proof (cases "q = of_int m")
    case True
    then show ?thesis by simp
  next
    case False
    with a have "q < of_int m" by simp
    then have "\<lfloor>q\<rfloor> < m" by (simp add: floor_less_iff)
    then show ?thesis using rne_cases [of q] by auto
  qed
qed

lemma rne_half: "rne (1 / 2) = 0" "rne (- (1 / 2)) = 0"
  by (simp_all add: rne_def)

lemma rne_small: "\<bar>q\<bar> \<le> 1 / 2 \<Longrightarrow> rne q = 0"
proof -
  assume a: "\<bar>q\<bar> \<le> 1 / 2"
  consider "0 \<le> q" "q < 1 / 2" | "q = 1 / 2" | "q < 0" "- (1 / 2) < q" | "q = - (1 / 2)"
    using a by fastforce
  then show ?thesis
  proof cases
    case 1
    then have "\<lfloor>q\<rfloor> = 0" by (simp add: floor_eq_iff)
    then show ?thesis using 1 by (simp add: rne_def)
  next
    case 2
    then show ?thesis by (simp only: rne_half)
  next
    case 3
    then have "\<lfloor>q\<rfloor> = - 1" by (simp add: floor_eq_iff)
    then show ?thesis using 3 by (simp add: rne_def)
  next
    case 4
    then show ?thesis by (simp only: rne_half)
  qed
qed

lemma ulp_pos [simp]: "0 < ulp x"
  by (simp add: ulp_def)

lemma ulp_nonneg [simp]: "0 \<le> ulp x"
  by (simp add: ulp_def)

lemma ulp_neq_0 [simp]: "ulp x \<noteq> 0"
  by (simp add: ulp_def)

lemma fl_zero [simp]: "fl 0 = Fin 0"
  by (simp add: fl_def)

lemma fl_nonneg: "0 \<le> x \<Longrightarrow> fl x = PInf \<or> (\<exists>y\<ge>0. fl x = Fin y)"
proof -
  assume x: "0 \<le> x"
  have "0 \<le> x / ulp x" using x by simp
  then have "0 \<le> rne (x / ulp x)" using rne_ge [of 0] by simp
  then have "0 \<le> of_int (rne (x / ulp x)) * ulp x" by simp
  then show ?thesis using x by (auto simp: fl_def Let_def)
qed

lemma fl_nonpos: "x \<le> 0 \<Longrightarrow> fl x = NInf \<or> (\<exists>y\<le>0. fl x = Fin y)"
proof -
  assume x: "x \<le> 0"
  have "x / ulp x \<le> 0" using x by (simp add: divide_le_0_iff)
  then have "rne (x / ulp x) \<le> 0" using rne_le [of _ 0] by simp
  then have "of_int (rne (x / ulp x)) * ulp x \<le> 0"
    by (simp add: mult_le_0_iff)
  then show ?thesis using x by (auto simp: fl_def Let_def)
qed

lemma fl_not_NaN [simp]: "fl x \<noteq> NaN"
  by (simp add: fl_def Let_def)

lemma binade_eq:
  assumes "pow2 e \<le> \<bar>x\<bar>" and "\<bar>x\<bar> < pow2 (e + 1)"
  shows "binade x = max e (- 1022)"
proof -
  have "0 < \<bar>x\<bar>" using assms(1) pow2_pos [of e] by linarith
  then have "\<lfloor>log 2 \<bar>x\<bar>\<rfloor> = e" using assms by (simp add: floor_log2_iff)
  then show ?thesis by (simp add: binade_def)
qed

lemma binade_le:
  assumes "x \<noteq> 0" and "pow2 (- 1022) \<le> \<bar>x\<bar>"
  shows "pow2 (binade x) \<le> \<bar>x\<bar>"
proof -
  let ?e = "\<lfloor>log 2 \<bar>x\<bar>\<rfloor>"
  have pos: "0 < \<bar>x\<bar>" using assms(1) by simp
  have "pow2 ?e \<le> \<bar>x\<bar>" using floor_log2_iff [OF pos, of ?e] by simp
  moreover have "- 1022 \<le> ?e" using assms(2) le_floor_log2_iff [OF pos, of "- 1022"] by blast
  ultimately show ?thesis by (simp add: binade_def)
qed

lemma fl_error:
  "\<bar>of_int (rne (x / ulp x)) * ulp x - x\<bar> \<le> ulp x / 2"
proof -
  have "of_int (rne (x / ulp x)) * ulp x - x = (of_int (rne (x / ulp x)) - x / ulp x) * ulp x"
    by (simp add: left_diff_distrib)
  then have "\<bar>of_int (rne (x / ulp x)) * ulp x - x\<bar> = \<bar>of_int (rne (x / ulp x)) - x / ulp x\<bar> * ulp x"
    by (simp add: abs_mult)
  also have "\<dots> \<le> 1 / 2 * ulp x"
    using rne_near [of "x / ulp x"] by (intro mult_right_mono) simp_all
  finally show ?thesis by simp
qed

lemma ulp_half: "ulp x / 2 = pow2 (- 53) * pow2 (binade x)"
proof -
  have "ulp x = pow2 (- 52) * pow2 (binade x)"
    by (simp add: ulp_def pow2_add [symmetric])
  moreover have "pow2 (- 52) / 2 = pow2 (- 53)"
    by (simp add: pow2_neg_numeral)
  ultimately show ?thesis by simp
qed

lemma fl_rel:
  assumes "pow2 (- 1022) \<le> \<bar>x\<bar>" and "\<bar>x\<bar> \<le> pow2 1023"
  shows "\<exists>y. fl x = Fin y \<and> \<bar>y - x\<bar> \<le> pow2 (- 53) * \<bar>x\<bar>"
proof -
  have nz: "x \<noteq> 0" using assms(1) pow2_pos [of "- 1022"] by auto
  let ?y = "of_int (rne (x / ulp x)) * ulp x"
  have "pow2 (binade x) \<le> \<bar>x\<bar>" using nz assms(1) by (rule binade_le)
  then have "pow2 (- 53) * pow2 (binade x) \<le> pow2 (- 53) * \<bar>x\<bar>"
    by (intro mult_left_mono) simp_all
  with fl_error [of x] have err: "\<bar>?y - x\<bar> \<le> pow2 (- 53) * \<bar>x\<bar>"
    unfolding ulp_half by linarith
  have "pow2 (- 53) \<le> 1 / 2" by (simp add: pow2_neg_numeral)
  then have "pow2 (- 53) * \<bar>x\<bar> \<le> 1 / 2 * \<bar>x\<bar>" by (intro mult_right_mono) simp_all
  with err have "\<bar>?y\<bar> \<le> 3 / 2 * \<bar>x\<bar>" by linarith
  also have "\<dots> \<le> 3 / 2 * pow2 1023" using assms(2) by simp
  also have "\<dots> < pow2 1024"
  proof -
    have "pow2 1024 = 2 * pow2 1023" using pow2_add [of 1 1023] by (simp add: pow2_numeral)
    then show ?thesis using pow2_pos [of 1023] by linarith
  qed
  finally have "\<bar>?y\<bar> < pow2 1024" .
  then have "fl x = Fin ?y" using nz by (simp add: fl_def Let_def)
  with err show ?thesis by blast
qed

lemma fl_magnitude:
  assumes "x \<noteq> 0" and "pow2 (binade x) \<le> \<bar>x\<bar>"
  shows "pow2 (binade x) \<le> \<bar>of_int (rne (x / ulp x)) * ulp x\<bar>"
proof -
  have u: "2 ^ 52 * ulp x = pow2 (binade x)"
    using pow2_add [of 52 "binade x - 52"] by (simp add: ulp_def pow2_numeral)
  have m: "2 ^ 52 \<le> \<bar>x\<bar> / ulp x"
    using assms(2) u by (simp add: pos_le_divide_eq)
  have cast: "real_of_int (2 ^ 52) = 2 ^ 52" by simp
  show ?thesis
  proof (cases "0 < x")
    case True
    with m have "of_int (2 ^ 52) \<le> x / ulp x" by (simp only: cast) 
    then have "2 ^ 52 \<le> rne (x / ulp x)" by (rule rne_ge)
    then have "real_of_int (2 ^ 52) \<le> of_int (rne (x / ulp x))" by (simp only: of_int_le_iff)
    then have "2 ^ 52 * ulp x \<le> of_int (rne (x / ulp x)) * ulp x"
      unfolding cast by (intro mult_right_mono) simp_all
    with u show ?thesis by linarith
  next
    case False
    with assms(1) have neg: "x < 0" by simp
    with m have "x / ulp x \<le> - (2 ^ 52)" by simp
    then have "x / ulp x \<le> of_int (- (2 ^ 52))" by (simp only: of_int_minus cast)
    then have "rne (x / ulp x) \<le> - (2 ^ 52)" by (rule rne_le)
    then have "real_of_int (rne (x / ulp x)) \<le> of_int (- (2 ^ 52))" by (simp only: of_int_le_iff)
    then have "of_int (rne (x / ulp x)) \<le> - ((2::real) ^ 52)" by (simp only: of_int_minus cast)
    then have "of_int (rne (x / ulp x)) * ulp x \<le> - (2 ^ 52) * ulp x"
      by (intro mult_right_mono) simp_all
    with u show ?thesis by linarith
  qed
qed

lemma fl_overflow:
  assumes "pow2 1024 \<le> \<bar>x\<bar>"
  shows "fl x = (if 0 < x then PInf else NInf)"
proof -
  have nz: "x \<noteq> 0" using assms pow2_pos [of 1024] by auto
  then have "0 < \<bar>x\<bar>" by simp
  then have "1024 \<le> \<lfloor>log 2 \<bar>x\<bar>\<rfloor>" using assms le_floor_log2_iff [of "\<bar>x\<bar>" 1024] by blast
  then have b: "1024 \<le> binade x" by (simp add: binade_def)
  have "pow2 (- 1022) \<le> pow2 1024" by simp
  with assms have "pow2 (- 1022) \<le> \<bar>x\<bar>" by linarith
  with nz have "pow2 (binade x) \<le> \<bar>x\<bar>" by (rule binade_le)
  with nz have "pow2 (binade x) \<le> \<bar>of_int (rne (x / ulp x)) * ulp x\<bar>"
    by (rule fl_magnitude)
  moreover have "pow2 1024 \<le> pow2 (binade x)" using b by simp
  ultimately have "pow2 1024 \<le> \<bar>of_int (rne (x / ulp x)) * ulp x\<bar>" by linarith
  then show ?thesis using nz by (simp add: fl_def Let_def)
qed

lemma fl_underflow:
  assumes "\<bar>x\<bar> \<le> pow2 (- 1075)"
  shows "fl x = Fin 0"
proof (cases "x = 0")
  case True
  then show ?thesis by simp
next
  case False
  have "pow2 (- 1075) < pow2 (- 1022)" by simp
  with assms have "\<bar>x\<bar> < pow2 (- 1022)" by linarith
  moreover have "0 < \<bar>x\<bar>" using False by simp
  ultimately have "\<lfloor>log 2 \<bar>x\<bar>\<rfloor> < - 1022" using floor_log2_less_iff [of "\<bar>x\<bar>" "- 1022"] by blast
  then have "binade x = - 1022" by (simp add: binade_def)
  then have u: "ulp x = pow2 (- 1074)" by (simp add: ulp_def)
  have "pow2 (- 1074) = 2 * pow2 (- 1075)" using pow2_add [of 1 "- 1075"] by (simp add: pow2_numeral)
  with assms have "\<bar>x\<bar> \<le> 1 / 2 * ulp x" by (simp add: u)
  then have "\<bar>x / ulp x\<bar> \<le> 1 / 2" by (simp add: pos_divide_le_eq)
  then have "rne (x / ulp x) = 0" by (rule rne_small)
  then show ?thesis using False by (simp add: fl_def)
qed

lemma fl_exact:
  assumes "x / ulp x = of_int m" and "\<bar>x\<bar> < pow2 1024"
  shows "fl x = Fin x"
proof (cases "x = 0")
  case True
  then show ?thesis by simp
next
  case False
  have "of_int (rne (x / ulp x)) * ulp x = x / ulp x * ulp x" by (simp add: assms(1))
  also have "\<dots> = x" by simp
  finally show ?thesis using False assms(2) by (simp add: fl_def Let_def)
qed

lemma fl_of_int:
  assumes "\<bar>k\<bar> < 2 ^ 53"
  shows "fl (of_int k) = Fin (of_int k)"
proof (cases "k = 0")
  case True
  then show ?thesis by simp
next
  case False
  let ?x = "real_of_int k"
  have pos: "0 < \<bar>?x\<bar>" using False by simp
  have "\<bar>?x\<bar> < 2 ^ 53" using assms by (metis of_int_abs of_int_less_iff of_int_numeral of_int_power)
  then have lt: "\<bar>?x\<bar> < pow2 53" by (simp add: pow2_numeral)
  then have "\<lfloor>log 2 \<bar>?x\<bar>\<rfloor> < 53" using floor_log2_less_iff [OF pos, of 53] by blast
  then have b: "binade ?x \<le> 52" by (simp add: binade_def)
  define n where "n = nat (52 - binade ?x)"
  have "binade ?x - 52 = - int n" using b by (simp add: n_def)
  then have u: "ulp ?x = 1 / 2 ^ n" by (simp add: ulp_def pow2_neg_nat)
  have "?x / ulp ?x = of_int (k * 2 ^ n)" by (simp add: u)
  moreover have "\<bar>?x\<bar> < pow2 1024"
  proof -
    have "pow2 53 < pow2 1024" by simp
    with lt show ?thesis by linarith
  qed
  ultimately show ?thesis by (rule fl_exact)
qed

lemma fl_numeral [simp]: "numeral n < (2::int) ^ 53 \<Longrightarrow> fl (numeral n) = Fin (numeral n)"
  using fl_of_int [of "numeral n"] by simp

lemma fl_neg_numeral [simp]: "numeral n < (2::int) ^ 53 \<Longrightarrow> fl (- numeral n) = Fin (- numeral n)"
  using fl_of_int [of "- numeral n"] by simp

lemma fl_one [simp]: "fl 1 = Fin 1"
  using fl_of_int [of 1] by simp

lemma fl_neg_one [simp]: "fl (- 1) = Fin (- 1)"
  using fl_of_int [of "- 1"] by simp

lemma fl_eval:
  assumes "pow2 e \<le> \<bar>x\<bar>" and "\<bar>x\<bar> < pow2 (e + 1)" and "- 1022 \<le> e"
    and "rne (x / pow2 (e - 52)) = m" and "\<bar>of_int m * pow2 (e - 52)\<bar> < pow2 1024"
  shows "fl x = Fin (of_int m * pow2 (e - 52))"
proof -
  have nz: "x \<noteq> 0" using assms(1) pow2_pos [of e] by auto
  have "binade x = e" using binade_eq [OF assms(1,2)] assms(3) by simp
  then have "ulp x = pow2 (e - 52)" by (simp add: ulp_def)
  then show ?thesis using nz assms(4,5) by (simp add: fl_def Let_def)
qed

section \<open>The loop of the similarity function as a fold\<close>

lemma simLoop_drop:
  "length f1 = length f2 \<Longrightarrow> i \<le> length f1 \<Longrightarrow>
   simLoop f1 f2 i a = foldl step a (drop i (zip f1 f2))"
proof (induction f1 f2 i a rule: simLoop.induct)
  case (1 f1 f2 i d n1 n2)
  show ?case
  proof (cases "i < length f1")
    case True
    then have "drop i (zip f1 f2) = (f1 ! i, f2 ! i) # drop (Suc i) (zip f1 f2)"
      using "1.prems" by (simp add: Cons_nth_drop_Suc [symmetric])
    moreover have "simLoop f1 f2 i (d, n1, n2) =
        simLoop f1 f2 (Suc i) (step (d, n1, n2) (f1 ! i, f2 ! i))"
      using True by (subst simLoop.simps) simp
    moreover have "simLoop f1 f2 (Suc i) (step (d, n1, n2) (f1 ! i, f2 ! i)) =
        foldl step (step (d, n1, n2) (f1 ! i, f2 ! i)) (drop (Suc i) (zip f1 f2))"
      using True "1.IH" "1.prems" by simp
    ultimately show ?thesis by simp
  next
    case False
    then have "simLoop f1 f2 i (d, n1, n2) = (d, n1, n2)"
      by (subst simLoop.simps) simp
    moreover have "drop i (zip f1 f2) = []"
      using False "1.prems" by simp
    ultimately show ?thesis by simp
  qed
qed

lemma calculateSimilarity_fold:
  "calculateSimilarity f1 f2 =
     (if length f1 \<noteq> length f2 then Fin 0
      else (case foldl step (Fin 0, Fin 0, Fin 0) (zip f1 f2) of
              (d, n1, n2) \<Rightarrow> js_div d (js_mul (js_sqrt n1) (js_sqrt n2))))"
  by (simp add: calculateSimilarity_def simLoop_drop)

section \<open>Arithmetic and order of JavaScript numbers\<close>

lemma js_mul_commute: "js_mul a b = js_mul b a"
  by (cases a; cases b) (auto simp: mult.commute)

lemma js_gt_trans: "js_gt a b \<Longrightarrow> js_gt b c \<Longrightarrow> js_gt a c"
  by (cases a; cases b; cases c) auto

lemma js_gt_imp_ge: "js_gt a b \<Longrightarrow> js_ge a b"
  by (cases a; cases b) auto

lemma js_ge_gt_trans: "js_ge a b \<Longrightarrow> js_gt b c \<Longrightarrow> js_gt a c"
  by (cases a; cases b; cases c) auto

lemma js_gt_not_ge: "js_gt a b \<Longrightarrow> \<not> js_ge b a"
  by (cases a; cases b) auto

lemma js_ge_total: "a \<noteq> NaN \<Longrightarrow> b \<noteq> NaN \<Longrightarrow> \<not> js_gt a b \<Longrightarrow> js_ge b a"
  by (cases a; cases b) auto

lemma js_gt_not_NaN: "js_gt a b \<Longrightarrow> a \<noteq> NaN \<and> b \<noteq> NaN"
  by (cases a; cases b) auto

lemma js_ge_zero_not_gt: "js_ge t (Fin 0) \<Longrightarrow> \<not> js_gt t (Fin 0) \<Longrightarrow> t = Fin 0"
  by (cases t) auto

section \<open>The loop with its arguments exchanged\<close>

lemma foldl_step_swap:
  "foldl step (d, n1, n2) (zip a b) = (d', n1', n2') \<Longrightarrow>
   foldl step (d, n2, n1) (zip b a) = (d', n2', n1')"
proof (induction a arbitrary: b d n1 n2)
  case Nil
  then show ?case by simp
next
  case (Cons x xs)
  then show ?case
    by (cases b) (simp_all add: js_mul_commute)
qed

lemma calculateSimilarity_commute: "calculateSimilarity a b = calculateSimilarity b a"
proof (cases "length a = length b")
  case True
  obtain d n1 n2 where f: "foldl step (Fin 0, Fin 0, Fin 0) (zip a b) = (d, n1, n2)"
    by (cases "foldl step (Fin 0, Fin 0, Fin 0) (zip a b)")
  from foldl_step_swap [OF f] f True show ?thesis
    by (simp add: calculateSimilarity_fold js_mul_commute)
next
  case False
  then show ?thesis by (auto simp: calculateSimilarity_fold)
qed

section \<open>The threshold, zero vectors and a vector with itself\<close>

lemma confidenceThreshold_value:
  "confidenceThreshold = Fin (5404319552844595 / 2 ^ 53)"
proof -
  have "fl (6 / 10) = Fin (of_int 5404319552844595 * pow2 (- 1 - 52))"
  proof (rule fl_eval)
    show "pow2 (- 1) \<le> \<bar>6 / 10 :: real\<bar>" by simp
    show "\<bar>6 / 10 :: real\<bar> < pow2 (- 1 + 1)" by simp
    show "- 1022 \<le> (- 1 :: int)" by simp
    show "rne (6 / 10 / pow2 (- 1 - 52)) = 5404319552844595"
      by (simp add: pow2_neg_numeral rne_def)
    show "\<bar>real_of_int 5404319552844595 * pow2 (- 1 - 52)\<bar> < pow2 1024"
      by (simp add: pow2_neg_numeral pow2_numeral)
  qed
  then show ?thesis by (simp add: confidenceThreshold_def pow2_neg_numeral)
qed

lemma above_threshold_positive: "js_gt s confidenceThreshold \<Longrightarrow> js_gt s (Fin 0)"
  by (cases s) (simp_all add: confidenceThreshold_value)

lemma js_gt_irrefl [simp]: "\<not> js_gt a a"
  by (cases a) simp_all

lemma js_mul_zero: "js_mul x (Fin 0) = Fin 0 \<or> js_mul x (Fin 0) = NaN"
  by (cases x) simp_all

lemma foldl_step_zero:
  assumes "length w = length z" and "\<forall>y\<in>set z. y = Fin 0"
    and "d = Fin 0 \<or> d = NaN"
  shows "\<exists>d' n1'. foldl step (d, n1, Fin 0) (zip w z) = (d', n1', Fin 0) \<and>
           (d' = Fin 0 \<or> d' = NaN)"
  using assms
proof (induction w z arbitrary: d n1 rule: list_induct2)
  case Nil
  then show ?case by simp
next
  case (Cons x xs y ys)
  have y: "y = Fin 0" using Cons.prems(1) by simp
  have d: "js_add d (js_mul x y) = Fin 0 \<or> js_add d (js_mul x y) = NaN"
    using Cons.prems(2) js_mul_zero [of x] y by auto
  have rest: "\<forall>y\<in>set ys. y = Fin 0" using Cons.prems(1) by simp
  from Cons.IH [OF rest d] show ?case using y by simp
qed

lemma zero_norm_division:
  assumes "d = Fin 0 \<or> d = NaN"
  shows "js_div d (js_mul (js_sqrt n1) (js_sqrt (Fin 0))) = NaN"
  using assms js_mul_zero [of "js_sqrt n1"] by auto

lemma zero_vector_similarity:
  assumes "length w = length z" and "\<forall>y\<in>set z. y = Fin 0"
  shows "calculateSimilarity w z = NaN"
proof -
  from foldl_step_zero [OF assms, of "Fin 0" "Fin 0"]
  obtain d' n1' where f: "foldl step (Fin 0, Fin 0, Fin 0) (zip w z) = (d', n1', Fin 0)"
    and c: "d' = Fin 0 \<or> d' = NaN"
    by auto
  have "calculateSimilarity w z = js_div d' (js_mul (js_sqrt n1') (js_sqrt (Fin 0)))"
    using f assms(1) by (simp add: calculateSimilarity_fold)
  then show ?thesis using zero_norm_division [OF c] by simp
qed

lemma rel_bounds:
  assumes "\<bar>y - x\<bar> \<le> u * \<bar>x::real\<bar>" and "0 < x"
  shows "(1 - u) * x \<le> y" and "y \<le> (1 + u) * x"
proof -
  have "\<bar>y - x\<bar> \<le> u * x" using assms by simp
  then have "y - x \<le> u * x" "x - y \<le> u * x" by linarith+
  then show "(1 - u) * x \<le> y" "y \<le> (1 + u) * x" by (simp_all add: algebra_simps)
qed

lemma ratio_near_one:
  assumes lo: "pow2 (- 1020) \<le> n" and hi: "n \<le> pow2 1020"
  shows "\<exists>r. js_div (Fin n) (js_mul (js_sqrt (Fin n)) (js_sqrt (Fin n))) = Fin r \<and>
           \<bar>r - 1\<bar> \<le> 1 / 2 ^ 50"
proof -
  define u :: real where "u = pow2 (- 53)"
  have u: "u = 1 / 2 ^ 53" by (simp add: u_def pow2_neg_numeral)
  have u0: "0 < u" and u64: "u \<le> 1 / 64" by (simp_all add: u)
  have npos: "0 < n" using lo pow2_pos [of "- 1020"] by linarith
  define a where "a = sqrt n"
  have apos: "0 < a" using npos by (simp add: a_def)
  have asq: "a * a = n" using npos by (simp add: a_def)
  have "(pow2 (- 510))\<^sup>2 = pow2 (- 1020)"
    using pow2_add [of "- 510" "- 510"] by (simp add: power2_eq_square)
  with lo have "(pow2 (- 510))\<^sup>2 \<le> n" by simp
  then have "pow2 (- 510) \<le> a" unfolding a_def by (rule real_le_rsqrt)
  moreover have "pow2 (- 1022) \<le> pow2 (- 510)" by simp
  ultimately have alo: "pow2 (- 1022) \<le> \<bar>a\<bar>" using apos by linarith
  have "(pow2 510)\<^sup>2 = pow2 1020"
    using pow2_add [of 510 510] by (simp add: power2_eq_square)
  with hi have "n \<le> (pow2 510)\<^sup>2" by simp
  then have "a \<le> pow2 510" unfolding a_def by (intro real_le_lsqrt) simp_all
  moreover have "pow2 510 \<le> pow2 1023" by simp
  ultimately have ahi: "\<bar>a\<bar> \<le> pow2 1023" using apos by linarith
  obtain s where s: "fl a = Fin s" and serr: "\<bar>s - a\<bar> \<le> u * \<bar>a\<bar>"
    using fl_rel [OF alo ahi] unfolding u_def by blast
  have s1: "(1 - u) * a \<le> s" and s2: "s \<le> (1 + u) * a"
    using rel_bounds [OF serr apos] by simp_all
  have s1': "63 / 64 * a \<le> s"
  proof -
    have "63 / 64 * a \<le> (1 - u) * a" using u64 apos by (intro mult_right_mono) simp_all
    with s1 show ?thesis by linarith
  qed
  have s2': "s \<le> 65 / 64 * a"
  proof -
    have "(1 + u) * a \<le> 65 / 64 * a" using u64 apos by (intro mult_right_mono) simp_all
    with s2 show ?thesis by linarith
  qed
  have "0 < 63 / 64 * a" using apos by simp
  with s1' have spos: "0 < s" by linarith
  have sq1: "63 / 64 * (63 / 64) * n \<le> s * s"
  proof -
    have "63 / 64 * a * (63 / 64 * a) \<le> s * s"
      using s1' apos by (intro mult_mono) simp_all
    moreover have "63 / 64 * a * (63 / 64 * a) = 63 / 64 * (63 / 64) * (a * a)" by simp
    ultimately show ?thesis by (simp only: asq)
  qed
  have sq2: "s * s \<le> 65 / 64 * (65 / 64) * n"
  proof -
    have "s * s \<le> 65 / 64 * a * (65 / 64 * a)"
      using s2' spos by (intro mult_mono) simp_all
    moreover have "65 / 64 * a * (65 / 64 * a) = 65 / 64 * (65 / 64) * (a * a)" by simp
    ultimately show ?thesis by (simp only: asq)
  qed
  have sqerr: "\<bar>s * s - n\<bar> \<le> 129 / 64 * u * n"
  proof -
    have "s * s - a * a = (s - a) * (s + a)" by (simp add: algebra_simps)
    then have "s * s - n = (s - a) * (s + a)" by (simp only: asq)
    then have "\<bar>s * s - n\<bar> = \<bar>s - a\<bar> * (s + a)" using spos apos by (simp add: abs_mult)
    also have "\<dots> \<le> u * a * (129 / 64 * a)"
      using serr apos s2' spos by (intro mult_mono) simp_all
    also have "\<dots> = 129 / 64 * u * (a * a)" by simp
    also have "\<dots> = 129 / 64 * u * n" by (simp only: asq)
    finally show ?thesis .
  qed
  have four_lo: "pow2 (- 1020) = 4 * pow2 (- 1022)"
    using pow2_add [of 2 "- 1022"] by (simp add: pow2_numeral)
  have "pow2 (- 1022) \<le> 63 / 64 * (63 / 64) * pow2 (- 1020)"
    using pow2_pos [of "- 1022"] by (simp add: four_lo)
  also have "\<dots> \<le> 63 / 64 * (63 / 64) * n" using lo by (intro mult_left_mono) simp_all
  finally have plo: "pow2 (- 1022) \<le> \<bar>s * s\<bar>" using sq1 by simp
  have four_hi: "pow2 1022 = 4 * pow2 1020"
    using pow2_add [of 2 1020] by (simp add: pow2_numeral)
  have "65 / 64 * (65 / 64) * n \<le> 65 / 64 * (65 / 64) * pow2 1020"
    using hi by (intro mult_left_mono) simp_all
  also have "\<dots> \<le> pow2 1022" using pow2_pos [of 1020] by (simp add: four_hi)
  also have "\<dots> \<le> pow2 1023" by simp
  finally have phi: "\<bar>s * s\<bar> \<le> pow2 1023" using sq2 by simp
  obtain p where p: "fl (s * s) = Fin p" and perr: "\<bar>p - s * s\<bar> \<le> u * \<bar>s * s\<bar>"
    using fl_rel [OF plo phi] unfolding u_def by blast
  have perr': "\<bar>p - s * s\<bar> \<le> 4225 / 4096 * u * n"
  proof -
    have "u * \<bar>s * s\<bar> \<le> u * (65 / 64 * (65 / 64) * n)"
      using sq2 u0 by (intro mult_left_mono) simp_all
    with perr show ?thesis by (simp add: algebra_simps)
  qed
  have pn: "\<bar>p - n\<bar> \<le> 25 / 8 * (u * n)"
  proof -
    have "\<bar>p - n\<bar> \<le> \<bar>p - s * s\<bar> + \<bar>s * s - n\<bar>" by simp
    also have "\<dots> \<le> 4225 / 4096 * u * n + 129 / 64 * u * n" using perr' sqerr by linarith
    also have "\<dots> = 12481 / 4096 * (u * n)" by simp
    also have "\<dots> \<le> 25 / 8 * (u * n)" using u0 npos by (intro mult_right_mono) simp_all
    finally show ?thesis .
  qed
  have un: "u * n \<le> 1 / 64 * n" using u64 npos by (intro mult_right_mono) simp_all
  have p1: "15 / 16 * n \<le> p"
  proof -
    have "n - p \<le> 25 / 8 * (u * n)" using pn by linarith
    then show ?thesis using un npos by linarith
  qed
  have ppos: "0 < p" using p1 npos by linarith
  define q where "q = n / p"
  have qerr: "\<bar>q - 1\<bar> \<le> 10 / 3 * u"
  proof -
    have "q - 1 = (n - p) / p" using ppos by (simp add: q_def field_simps)
    then have "\<bar>q - 1\<bar> = \<bar>p - n\<bar> / p" using ppos by (simp add: abs_minus_commute)
    also have "\<dots> \<le> 25 / 8 * (u * n) / p" using pn ppos by (intro divide_right_mono) simp_all
    also have "\<dots> \<le> 25 / 8 * (u * n) / (15 / 16 * n)"
      using p1 npos u0 ppos by (intro divide_left_mono) simp_all
    also have "\<dots> = 10 / 3 * u" using npos by simp
    finally show ?thesis .
  qed
  have q1: "1 / 2 \<le> q" and q2: "q \<le> 2" using qerr u64 by linarith+
  have "pow2 (- 1022) \<le> pow2 (- 1)" by (simp del: pow2_neg_1)
  with q1 have qlo: "pow2 (- 1022) \<le> \<bar>q\<bar>" by simp
  have "pow2 1 \<le> pow2 1023" by (simp del: pow2_1)
  with q1 q2 have qhi: "\<bar>q\<bar> \<le> pow2 1023" by simp
  obtain r where r: "fl q = Fin r" and rerr: "\<bar>r - q\<bar> \<le> u * \<bar>q\<bar>"
    using fl_rel [OF qlo qhi] unfolding u_def by blast
  have "u * \<bar>q\<bar> \<le> u * 2" using q1 q2 u0 by (intro mult_left_mono) simp_all
  with rerr qerr have "\<bar>r - 1\<bar> \<le> 8 * u" by linarith
  then have "\<bar>r - 1\<bar> \<le> 1 / 2 ^ 50" by (simp add: u)
  moreover have "js_div (Fin n) (js_mul (js_sqrt (Fin n)) (js_sqrt (Fin n))) = Fin r"
    using npos s p r ppos by (simp add: a_def q_def)
  ultimately show ?thesis by blast
qed

lemma foldl_step_self:
  "\<exists>n. foldl step (a, a, a) (zip v v) = (n, n, n)"
  by (induction v arbitrary: a) simp_all

lemma self_similarity_form:
  "calculateSimilarity v v =
     js_div (squaredNorm v) (js_mul (js_sqrt (squaredNorm v)) (js_sqrt (squaredNorm v)))"
proof -
  obtain n where n: "foldl step (Fin 0, Fin 0, Fin 0) (zip v v) = (n, n, n)"
    using foldl_step_self [of "Fin 0" v] by blast
  then have "squaredNorm v = n" by (simp add: squaredNorm_def simLoop_drop)
  then show ?thesis using n by (simp add: calculateSimilarity_fold)
qed

lemma self_similarity_NaN:
  "n = Fin 0 \<or> n = PInf \<or> n = NaN \<or> n = NInf \<Longrightarrow>
   js_div n (js_mul (js_sqrt n) (js_sqrt n)) = NaN"
  by auto

lemma squaredNorm_fold:
  "squaredNorm v = (case foldl step (Fin 0, Fin 0, Fin 0) (zip v v) of (d, n1, n2) \<Rightarrow> n1)"
  by (simp add: squaredNorm_def simLoop_drop)

section \<open>A computation with rounding: the vector of two ones\<close>

text \<open>
  The square root of 2 rounds to \<open>6369051672525773 / 2 ^ 52\<close>, its square to
  \<open>2 + 2 / 2 ^ 52\<close>, and the quotient to \<open>1 - 1 / 2 ^ 52\<close>, which prints as
  \<open>0.9999999999999998\<close>.
\<close>

lemma rne_eq: "\<bar>q - of_int m\<bar> < 1 / 2 \<Longrightarrow> rne q = m"
proof -
  assume a: "\<bar>q - of_int m\<bar> < 1 / 2"
  have "\<bar>real_of_int (rne q) - of_int m\<bar> \<le> \<bar>of_int (rne q) - q\<bar> + \<bar>q - of_int m\<bar>" by simp
  also have "\<dots> < 1 / 2 + 1 / 2" using rne_near [of q] a by linarith
  finally have "\<bar>real_of_int (rne q - m)\<bar> < 1" by simp
  then have "\<bar>rne q - m\<bar> < 1" by (metis of_int_abs of_int_less_1_iff)
  then show ?thesis by simp
qed

lemma fl_sqrt_two: "fl (sqrt 2) = Fin (6369051672525773 / 2 ^ 52)"
proof -
  have lo: "(6369051672525773 - 1 / 2) < sqrt 2 * 2 ^ 52"
  proof -
    have "((6369051672525773 - 1 / 2) / 2 ^ 52)\<^sup>2 < (2::real)" by (simp add: power2_eq_square)
    then have "(6369051672525773 - 1 / 2) / 2 ^ 52 < sqrt 2" by (rule real_less_rsqrt)
    then show ?thesis by (simp add: pos_divide_less_eq)
  qed
  have hi: "sqrt 2 * 2 ^ 52 < (6369051672525773 + 1 / 2)"
  proof -
    have "(2::real) < ((6369051672525773 + 1 / 2) / 2 ^ 52)\<^sup>2" by (simp add: power2_eq_square)
    then have "sqrt 2 < (6369051672525773 + 1 / 2) / 2 ^ 52" by (intro real_less_lsqrt) simp_all
    then show ?thesis by (simp add: pos_less_divide_eq)
  qed
  have "fl (sqrt 2) = Fin (of_int 6369051672525773 * pow2 (0 - 52))"
  proof (rule fl_eval)
    show "pow2 0 \<le> \<bar>sqrt 2\<bar>" by simp
    have "sqrt 2 < 2" by (intro real_less_lsqrt) simp_all
    then show "\<bar>sqrt 2\<bar> < pow2 (0 + 1)" by simp
    show "- 1022 \<le> (0::int)" by simp
    show "rne (sqrt 2 / pow2 (0 - 52)) = 6369051672525773"
    proof (rule rne_eq)
      define q where "q = sqrt 2 * 2 ^ 52"
      have e: "sqrt 2 / pow2 (0 - 52) = q" by (simp add: q_def pow2_neg_numeral)
      have "6369051672525773 - 1 / 2 < q" "q < 6369051672525773 + 1 / 2"
        using lo hi by (simp_all only: q_def)
      then have "\<bar>q - 6369051672525773\<bar> < 1 / 2" by linarith
      then show "\<bar>sqrt 2 / pow2 (0 - 52) - real_of_int 6369051672525773\<bar> < 1 / 2"
        by (simp only: e of_int_numeral)
    qed
    show "\<bar>real_of_int 6369051672525773 * pow2 (0 - 52)\<bar> < pow2 1024"
      by (simp add: pow2_neg_numeral pow2_numeral)
  qed
  then show ?thesis by (simp add: pow2_neg_numeral)
qed

lemma fl_square: "fl (6369051672525773 / 2 ^ 52 * (6369051672525773 / 2 ^ 52)) = Fin (4503599627370497 / 2 ^ 51)"
proof -
  let ?x = "6369051672525773 / 2 ^ 52 * (6369051672525773 / 2 ^ 52) :: real"
  have "fl ?x = Fin (of_int 4503599627370497 * pow2 (1 - 52))"
  proof (rule fl_eval)
    show "pow2 1 \<le> \<bar>?x\<bar>" by simp
    show "\<bar>?x\<bar> < pow2 (1 + 1)" by (simp add: pow2_numeral)
    show "- 1022 \<le> (1::int)" by simp
    show "rne (?x / pow2 (1 - 52)) = 4503599627370497"
      by (simp add: pow2_neg_numeral rne_def)
    show "\<bar>real_of_int 4503599627370497 * pow2 (1 - 52)\<bar> < pow2 1024"
      by (simp add: pow2_neg_numeral pow2_numeral)
  qed
  then show ?thesis by (simp add: pow2_neg_numeral)
qed

lemma fl_quotient: "fl (2 / (4503599627370497 / 2 ^ 51)) = Fin (1 - 1 / 2 ^ 52)"
proof -
  let ?x = "2 / (4503599627370497 / 2 ^ 51) :: real"
  have "fl ?x = Fin (of_int 9007199254740990 * pow2 (- 1 - 52))"
  proof (rule fl_eval)
    show "pow2 (- 1) \<le> \<bar>?x\<bar>" by simp
    show "\<bar>?x\<bar> < pow2 (- 1 + 1)" by simp
    show "- 1022 \<le> (- 1::int)" by simp
    show "rne (?x / pow2 (- 1 - 52)) = 9007199254740990"
      by (simp add: pow2_neg_numeral rne_def)
    show "\<bar>real_of_int 9007199254740990 * pow2 (- 1 - 52)\<bar> < pow2 1024"
      by (simp add: pow2_neg_numeral pow2_numeral)
  qed
  then show ?thesis by (simp add: pow2_neg_numeral)
qed

lemma similarity_ones:
  "calculateSimilarity [Fin 1, Fin 1] [Fin 1, Fin 1] = Fin (1 - 1 / 2 ^ 52)"
proof -
  have n: "squaredNorm [Fin 1, Fin 1] = Fin 2" by (simp add: squaredNorm_fold)
  have s: "js_sqrt (Fin 2) = Fin (6369051672525773 / 2 ^ 52)" by (simp add: fl_sqrt_two)
  have p: "js_mul (Fin (6369051672525773 / 2 ^ 52)) (Fin (6369051672525773 / 2 ^ 52)) =
      Fin (4503599627370497 / 2 ^ 51)"
    using fl_square by simp
  have r: "js_div (Fin 2) (Fin (4503599627370497 / 2 ^ 51)) = Fin (1 - 1 / 2 ^ 52)"
    using fl_quotient by simp
  show ?thesis by (simp only: self_similarity_form n s p r)
qed

section \<open>The invariant of the matching loop\<close>

lemma scores_append: "scores q (xs @ ys) = scores q xs @ scores q ys"
  by (induction xs) (auto split: option.splits)

lemma scan_decomp:
  "scan q rows (bm, hs) = (bm', hs') \<Longrightarrow>
     (bm' = bm \<and> hs' = hs \<and> (\<forall>s\<in>set (scores q rows). \<not> js_gt s hs)) \<or>
     (\<exists>pre p post f. rows = pre @ p # post \<and> bm' = Some p \<and> features p = Some f \<and>
        hs' = calculateSimilarity q f \<and> js_gt hs' hs \<and>
        (\<forall>s\<in>set (scores q pre). \<not> js_ge s hs') \<and>
        (\<forall>s\<in>set (scores q post). \<not> js_gt s hs'))"
proof (induction rows arbitrary: bm hs)
  case Nil
  then show ?case by simp
next
  case (Cons r rs)
  show ?case
  proof (cases "features r")
    case None
    with Cons.prems have run: "scan q rs (bm, hs) = (bm', hs')" by simp
    from Cons.IH [OF run] show ?thesis
    proof
      assume "bm' = bm \<and> hs' = hs \<and> (\<forall>s\<in>set (scores q rs). \<not> js_gt s hs)"
      then show ?thesis using None by simp
    next
      assume "\<exists>pre p post f. rs = pre @ p # post \<and> bm' = Some p \<and> features p = Some f \<and>
        hs' = calculateSimilarity q f \<and> js_gt hs' hs \<and>
        (\<forall>s\<in>set (scores q pre). \<not> js_ge s hs') \<and>
        (\<forall>s\<in>set (scores q post). \<not> js_gt s hs')"
      then obtain pre p post f where d: "rs = pre @ p # post" "bm' = Some p" "features p = Some f"
        "hs' = calculateSimilarity q f" "js_gt hs' hs"
        "\<forall>s\<in>set (scores q pre). \<not> js_ge s hs'" "\<forall>s\<in>set (scores q post). \<not> js_gt s hs'"
        by blast
      have "r # rs = (r # pre) @ p # post" using d(1) by simp
      moreover have "\<forall>s\<in>set (scores q (r # pre)). \<not> js_ge s hs'" using d(6) None by simp
      ultimately show ?thesis using d by blast
    qed
  next
    case (Some f0)
    define s0 where "s0 = calculateSimilarity q f0"
    show ?thesis
    proof (cases "js_gt s0 hs")
      case True
      with Cons.prems Some have run: "scan q rs (Some r, s0) = (bm', hs')"
        by (simp add: s0_def)
      from Cons.IH [OF run] show ?thesis
      proof
        assume a: "bm' = Some r \<and> hs' = s0 \<and> (\<forall>s\<in>set (scores q rs). \<not> js_gt s s0)"
        have "r # rs = [] @ r # rs" by simp
        moreover have "\<forall>s\<in>set (scores q []). \<not> js_ge s hs'" by simp
        ultimately show ?thesis using a Some True s0_def by blast
      next
        assume "\<exists>pre p post f. rs = pre @ p # post \<and> bm' = Some p \<and> features p = Some f \<and>
          hs' = calculateSimilarity q f \<and> js_gt hs' s0 \<and>
          (\<forall>s\<in>set (scores q pre). \<not> js_ge s hs') \<and>
          (\<forall>s\<in>set (scores q post). \<not> js_gt s hs')"
        then obtain pre p post f where d: "rs = pre @ p # post" "bm' = Some p" "features p = Some f"
          "hs' = calculateSimilarity q f" "js_gt hs' s0"
          "\<forall>s\<in>set (scores q pre). \<not> js_ge s hs'" "\<forall>s\<in>set (scores q post). \<not> js_gt s hs'"
          by blast
        have "r # rs = (r # pre) @ p # post" using d(1) by simp
        moreover have "\<forall>s\<in>set (scores q (r # pre)). \<not> js_ge s hs'"
          using d(5,6) Some js_gt_not_ge by (simp add: s0_def)
        moreover have "js_gt hs' hs" using d(5) True by (rule js_gt_trans)
        ultimately show ?thesis using d by blast
      qed
    next
      case False
      with Cons.prems Some have run: "scan q rs (bm, hs) = (bm', hs')"
        by (simp add: s0_def)
      from Cons.IH [OF run] show ?thesis
      proof
        assume "bm' = bm \<and> hs' = hs \<and> (\<forall>s\<in>set (scores q rs). \<not> js_gt s hs)"
        then show ?thesis using Some False by (simp add: s0_def)
      next
        assume "\<exists>pre p post f. rs = pre @ p # post \<and> bm' = Some p \<and> features p = Some f \<and>
          hs' = calculateSimilarity q f \<and> js_gt hs' hs \<and>
          (\<forall>s\<in>set (scores q pre). \<not> js_ge s hs') \<and>
          (\<forall>s\<in>set (scores q post). \<not> js_gt s hs')"
        then obtain pre p post f where d: "rs = pre @ p # post" "bm' = Some p" "features p = Some f"
          "hs' = calculateSimilarity q f" "js_gt hs' hs"
          "\<forall>s\<in>set (scores q pre). \<not> js_ge s hs'" "\<forall>s\<in>set (scores q post). \<not> js_gt s hs'"
          by blast
        have "r # rs = (r # pre) @ p # post" using d(1) by simp
        moreover have "\<not> js_ge s0 hs'" using False d(5) js_ge_gt_trans by blast
        then have "\<forall>s\<in>set (scores q (r # pre)). \<not> js_ge s hs'"
          using d(6) Some by (simp add: s0_def)
        ultimately show ?thesis using d by blast
      qed
    qed
  qed
qed

lemma scan_start:
  "\<exists>bm hs. scan q rows (None, Fin 0) = (bm, hs) \<and>
     ((bm = None \<and> hs = Fin 0 \<and> (\<forall>s\<in>set (scores q rows). \<not> js_gt s (Fin 0))) \<or>
      (\<exists>pre p post f. rows = pre @ p # post \<and> bm = Some p \<and> features p = Some f \<and>
         hs = calculateSimilarity q f \<and> js_gt hs (Fin 0) \<and>
         (\<forall>s\<in>set (scores q pre). \<not> js_ge s hs) \<and>
         (\<forall>s\<in>set (scores q post). \<not> js_gt s hs)))"
proof -
  obtain bm hs where r: "scan q rows (None, Fin 0) = (bm, hs)"
    by (cases "scan q rows (None, Fin 0)") 
  from scan_decomp [OF r] r show ?thesis by blast
qed

lemma scores_mid: "features p = Some f \<Longrightarrow>
  set (scores q (pre @ p # post)) = set (scores q pre) \<union> {calculateSimilarity q f} \<union> set (scores q post)"
  by (auto simp: scores_append)

lemma recognize_cases:
  obtains (untouched) "scan q rows (None, Fin 0) = (None, Fin 0)"
      "recognize q rows = NoMatch (Fin 0)"
      "\<forall>s\<in>set (scores q rows). \<not> js_gt s (Fin 0)"
  | (selected) pre p post f where
      "rows = pre @ p # post" "features p = Some f"
      "scan q rows (None, Fin 0) = (Some p, calculateSimilarity q f)"
      "js_gt (calculateSimilarity q f) (Fin 0)"
      "\<forall>s\<in>set (scores q pre). \<not> js_ge s (calculateSimilarity q f)"
      "\<forall>s\<in>set (scores q post). \<not> js_gt s (calculateSimilarity q f)"
      "recognize q rows =
         (if js_gt (calculateSimilarity q f) confidenceThreshold
          then Match p (calculateSimilarity q f) else NoMatch (calculateSimilarity q f))"
proof -
  from scan_start [of q rows] obtain bm hs where r: "scan q rows (None, Fin 0) = (bm, hs)"
    and d: "(bm = None \<and> hs = Fin 0 \<and> (\<forall>s\<in>set (scores q rows). \<not> js_gt s (Fin 0))) \<or>
      (\<exists>pre p post f. rows = pre @ p # post \<and> bm = Some p \<and> features p = Some f \<and>
         hs = calculateSimilarity q f \<and> js_gt hs (Fin 0) \<and>
         (\<forall>s\<in>set (scores q pre). \<not> js_ge s hs) \<and>
         (\<forall>s\<in>set (scores q post). \<not> js_gt s hs))"
    by blast
  from d show thesis
  proof
    assume a: "bm = None \<and> hs = Fin 0 \<and> (\<forall>s\<in>set (scores q rows). \<not> js_gt s (Fin 0))"
    then have "recognize q rows = NoMatch (Fin 0)" using r by (simp add: recognize_def)
    then show thesis using a r untouched by simp
  next
    assume "\<exists>pre p post f. rows = pre @ p # post \<and> bm = Some p \<and> features p = Some f \<and>
         hs = calculateSimilarity q f \<and> js_gt hs (Fin 0) \<and>
         (\<forall>s\<in>set (scores q pre). \<not> js_ge s hs) \<and>
         (\<forall>s\<in>set (scores q post). \<not> js_gt s hs)"
    then obtain pre p post f where e: "rows = pre @ p # post" "bm = Some p" "features p = Some f"
         "hs = calculateSimilarity q f" "js_gt hs (Fin 0)"
         "\<forall>s\<in>set (scores q pre). \<not> js_ge s hs"
         "\<forall>s\<in>set (scores q post). \<not> js_gt s hs"
      by blast
    have "recognize q rows =
         (if js_gt (calculateSimilarity q f) confidenceThreshold
          then Match p (calculateSimilarity q f) else NoMatch (calculateSimilarity q f))"
      using r e(2,4) by (simp add: recognize_def)
    then show thesis using e r selected [of pre p post f] by simp
  qed
qed

lemma scan_no_features:
  "\<forall>p\<in>set rows. features p = None \<Longrightarrow> scan q rows st = st"
proof (induction rows)
  case Nil
  show ?case by simp
next
  case (Cons r rows)
  then show ?case by (cases st) simp
qed

lemma selected_best:
  assumes "rows = pre @ p # post" and "features p = Some f"
    and "js_gt (calculateSimilarity q f) (Fin 0)"
    and "\<forall>s\<in>set (scores q pre). \<not> js_ge s (calculateSimilarity q f)"
    and "\<forall>s\<in>set (scores q post). \<not> js_gt s (calculateSimilarity q f)"
  shows "best_score (calculateSimilarity q f) (scores q rows)"
proof -
  let ?s = "calculateSimilarity q f"
  have "?s \<noteq> NaN" using assms(3) js_gt_not_NaN by blast
  moreover have "?s \<in> set (scores q rows)" using assms(1,2) by (simp add: scores_mid)
  moreover have "\<forall>t\<in>set (scores q rows). \<not> js_gt t ?s"
    using assms(1,2,4,5) js_gt_imp_ge js_gt_not_ge [of ?s ?s]
    by (auto simp: scores_mid)
  ultimately show ?thesis by (simp add: best_score_def)
qed

lemma best_score_above:
  assumes "best_score s ss" and "t \<in> set ss" and "js_gt t c"
  shows "js_gt s c"
proof -
  have "\<not> js_gt t s" "s \<noteq> NaN" using assms(1,2) by (simp_all add: best_score_def)
  moreover have "t \<noteq> NaN" using assms(3) js_gt_not_NaN by blast
  ultimately have "js_ge s t" using js_ge_total by blast
  then show ?thesis using assms(3) by (rule js_ge_gt_trans)
qed

section \<open>The loop on stored rows\<close>

lemma js_gt_ge_zero: "js_gt s hs \<Longrightarrow> js_ge hs (Fin 0) \<Longrightarrow> js_ge s (Fin 0)"
  by (cases s; cases hs) auto

lemma scanRows_raises_iff:
  "(\<exists>e. scanRows q rows st = Inl e) \<longleftrightarrow> (\<exists>r\<in>set rows. row_features r = Invalid \<or> row_features r = Valid Null)"
proof (induction rows arbitrary: st)
  case Nil
  show ?case by simp
next
  case (Cons r rows)
  obtain bm hs where st: "st = (bm, hs)" by (cases st)
  show ?case
  proof (cases "row_features r")
    case Blank
    then show ?thesis using Cons.IH st by simp
  next
    case Invalid
    then show ?thesis using st by simp
  next
    case (Valid v)
    show ?thesis
    proof (cases v)
      case Null
      then show ?thesis using Valid st by simp
    next
      case Unsized
      then show ?thesis using Valid Cons.IH st by simp
    next
      case (Array f)
      then show ?thesis using Valid Cons.IH st by (simp add: Let_def)
    qed
  qed
qed

lemma scanRows_nonneg:
  "scanRows q rows (bm, hs) = Inr (bm', hs') \<Longrightarrow> js_ge hs (Fin 0) \<Longrightarrow> js_ge hs' (Fin 0)"
proof (induction rows arbitrary: bm hs)
  case Nil
  then show ?case by simp
next
  case (Cons r rows)
  show ?case
  proof (cases "row_features r")
    case Blank
    then show ?thesis using Cons by simp
  next
    case Invalid
    then show ?thesis using Cons.prems by simp
  next
    case (Valid v)
    show ?thesis
    proof (cases "calculateSimilarityAny q v")
      case (Inl e)
      then show ?thesis using Valid Cons.prems by simp
    next
      case (Inr s)
      show ?thesis
      proof (cases "js_gt s hs")
        case True
        then have "js_ge s (Fin 0)" using Cons.prems(2) by (rule js_gt_ge_zero)
        moreover have "scanRows q rows (Some r, s) = Inr (bm', hs')"
          using Cons.prems(1) Valid Inr True by simp
        ultimately show ?thesis by (rule Cons.IH [rotated])
      next
        case False
        then have "scanRows q rows (bm, hs) = Inr (bm', hs')"
          using Cons.prems(1) Valid Inr by simp
        then show ?thesis using Cons.prems(2) by (rule Cons.IH)
      qed
    qed
  qed
qed

lemma scanRows_refines:
  assumes "\<forall>r\<in>set rows. row_features r = Blank \<or> (\<exists>f. row_features r = Valid (Array f))"
  shows "\<exists>bm' hs'. scanRows q rows (bm, hs) = Inr (bm', hs') \<and>
           scan q (map parsed_row rows) (map_option parsed_row bm, hs) =
             (map_option parsed_row bm', hs')"
  using assms
proof (induction rows arbitrary: bm hs)
  case Nil
  show ?case by simp
next
  case (Cons r rows)
  have rest: "\<forall>r\<in>set rows. row_features r = Blank \<or> (\<exists>f. row_features r = Valid (Array f))"
    using Cons.prems by simp
  have "row_features r = Blank \<or> (\<exists>f. row_features r = Valid (Array f))"
    using Cons.prems by simp
  then show ?case
  proof
    assume "row_features r = Blank"
    then show ?thesis using Cons.IH [OF rest, of bm hs] by (simp add: parsed_row_def)
  next
    assume "\<exists>f. row_features r = Valid (Array f)"
    then obtain f where f: "row_features r = Valid (Array f)" by blast
    then have pf: "features (parsed_row r) = Some f" by (simp add: parsed_row_def)
    show ?thesis
    proof (cases "js_gt (calculateSimilarity q f) hs")
      case True
      then show ?thesis
        using Cons.IH [OF rest, of "Some r" "calculateSimilarity q f"] f pf by simp
    next
      case False
      then show ?thesis using Cons.IH [OF rest, of bm hs] f pf by simp
    qed
  qed
qed

lemma recognizeRows_refines:
  assumes "\<forall>r\<in>set rows. row_features r = Blank \<or> (\<exists>f. row_features r = Valid (Array f))"
  shows "recognizeRows q rows = Inr (recognize q (map parsed_row rows))"
proof -
  obtain bm' hs' where a: "scanRows q rows (None, Fin 0) = Inr (bm', hs')"
    and b: "scan q (map parsed_row rows) (None, Fin 0) = (map_option parsed_row bm', hs')"
    using scanRows_refines [OF assms, of q None "Fin 0"] by auto
  show ?thesis using a b by (cases bm') (simp_all add: recognizeRows_def recognize_def)
qed

section \<open>Claims about the similarity function\<close>

text \<open>
  Claim C5. Two vectors of different lengths have similarity 0: the function returns
  before the loop, and the result is an ordinary number, not an error.
\<close>

theorem length_mismatch_zero:
  "length features1 \<noteq> length features2 \<Longrightarrow> calculateSimilarity features1 features2 = Fin 0"
  by (simp add: calculateSimilarity_def)

theorem length_mismatch_zero_witness:
  "length [Fin 1] \<noteq> length [Fin 1, Fin 2] \<and> calculateSimilarity [Fin 1] [Fin 1, Fin 2] = Fin 0"
proof -
  have h: "length [Fin 1] \<noteq> length [Fin 1, Fin 2]" by simp
  from length_mismatch_zero [OF h] h show ?thesis by simp
qed

text \<open>
  Claim C10. The similarity function is symmetric: \<open>similarity(a, b) = similarity(b, a)\<close>.
  It holds for all vectors, in particular for those of equal length; the two results
  are the same number, NaN included.
\<close>

theorem similarity_symmetric: "calculateSimilarity a b = calculateSimilarity b a"
  by (rule calculateSimilarity_commute)




text \<open>
  Claim C1, as amended. When one of two vectors of equal length is all zero, the
  division is \<open>0 / 0\<close> (or has a NaN operand) and the similarity function returns NaN,
  in either argument order. The function has no test for a zero norm.
\<close>

theorem zero_vector_NaN:
  assumes "length w = length z" and "\<forall>y\<in>set z. y = Fin 0"
  shows "calculateSimilarity w z = NaN \<and> calculateSimilarity z w = NaN"
proof -
  have "calculateSimilarity w z = NaN" using assms by (rule zero_vector_similarity)
  then show ?thesis using calculateSimilarity_commute [of z w] by simp
qed

theorem zero_vector_NaN_witness:
  "length [Fin 3, PInf] = length [Fin 0, Fin 0] \<and>
   calculateSimilarity [Fin 3, PInf] [Fin 0, Fin 0] = NaN \<and>
   calculateSimilarity [Fin 0, Fin 0] [Fin 3, PInf] = NaN"
proof -
  have l: "length [Fin 3, PInf] = length [Fin 0, Fin 0]" by simp
  have z: "\<forall>y\<in>set [Fin 0, Fin 0]. y = Fin 0" by simp
  from zero_vector_NaN [OF l z] l show ?thesis by simp
qed

text \<open>
  The claim as stated asks for 0. At \<open>w = [1, 2]\<close> and \<open>z = [0, 0]\<close> the dot
  product is 0, the norms are 5 and 0, and \<open>0 / (Math.sqrt(5) * 0)\<close> is NaN.
\<close>

theorem zero_vector_not_zero:
  "calculateSimilarity [Fin 1, Fin 2] [Fin 0, Fin 0] = NaN \<and>
   calculateSimilarity [Fin 1, Fin 2] [Fin 0, Fin 0] \<noteq> Fin 0"
  using zero_vector_similarity [of "[Fin 1, Fin 2]" "[Fin 0, Fin 0]"] by simp

section \<open>Claims about the matching pass\<close>

text \<open>
  Claim C6. With no eligible candidate (an empty sequence of rows, or rows none of
  which has a feature vector) the matching pass answers \<open>NoMatch\<close> with score 0.
\<close>

theorem match_no_eligible:
  "\<forall>p\<in>set rows. features p = None \<Longrightarrow> recognize q rows = NoMatch (Fin 0)"
  by (simp add: recognize_def scan_no_features)

theorem match_no_eligible_witness:
  "recognize [Fin 1, Fin 0] [] = NoMatch (Fin 0) \<and>
   features (unprocessed 7) = None \<and>
   recognize [Fin 1, Fin 0] [unprocessed 7] = NoMatch (Fin 0)"
proof -
  have e: "\<forall>p\<in>set []. features p = None" by simp
  have u: "\<forall>p\<in>set [unprocessed 7]. features p = None" by (simp add: unprocessed_def)
  from match_no_eligible [OF e] match_no_eligible [OF u] show ?thesis
    by (simp add: unprocessed_def)
qed

text \<open>
  Claim C3. The answer is \<open>Match\<close> exactly when the best score among the eligible
  candidates is strictly above the threshold, which is to say when some eligible
  candidate scores strictly above it; the score of a \<open>Match\<close> is that best score. A
  best score equal to the threshold gives \<open>NoMatch\<close>. The threshold is the constant
  \<open>confidenceThreshold\<close>.
\<close>

theorem match_iff_above_threshold:
  "((\<exists>p s. recognize q rows = Match p s) \<longleftrightarrow>
      (\<exists>s. best_score s (scores q rows) \<and> js_gt s confidenceThreshold)) \<and>
   ((\<exists>p s. recognize q rows = Match p s) \<longleftrightarrow>
      (\<exists>s\<in>set (scores q rows). js_gt s confidenceThreshold)) \<and>
   (\<forall>p s. recognize q rows = Match p s \<longrightarrow>
      best_score s (scores q rows) \<and> js_gt s confidenceThreshold)"
proof (cases q rows rule: recognize_cases)
  case untouched
  have none: "\<not> js_gt s confidenceThreshold" if "s \<in> set (scores q rows)" for s
  proof
    assume "js_gt s confidenceThreshold"
    then have "js_gt s (Fin 0)" by (rule above_threshold_positive)
    with untouched(3) that show False by blast
  qed
  then have "\<not> (\<exists>s. best_score s (scores q rows) \<and> js_gt s confidenceThreshold)"
    by (auto simp: best_score_def)
  with none untouched(2) show ?thesis by auto
next
  case (selected pre p post f)
  let ?s = "calculateSimilarity q f"
  have best: "best_score ?s (scores q rows)"
    using selected(1,2,4,5,6) by (rule selected_best)
  then have mem: "?s \<in> set (scores q rows)" by (simp add: best_score_def)
  show ?thesis
  proof (cases "js_gt ?s confidenceThreshold")
    case True
    with selected(7) have "recognize q rows = Match p ?s" by simp
    with True best mem show ?thesis by auto
  next
    case False
    have none: "\<not> js_gt t confidenceThreshold" if "t \<in> set (scores q rows)" for t
      using best that False best_score_above by blast
    then have "\<not> (\<exists>s. best_score s (scores q rows) \<and> js_gt s confidenceThreshold)"
      by (auto simp: best_score_def)
    moreover have "recognize q rows = NoMatch ?s" using selected(7) False by simp
    ultimately show ?thesis using none by auto
  qed
qed

text \<open>
  The query \<open>[1, 0]\<close> against the vectors \<open>[1, 0]\<close> and \<open>[0, 1]\<close> scores 1 and 0 and
  is matched; the query \<open>[3, 4]\<close> against \<open>[1, 0]\<close> alone scores \<open>3 / 5\<close>, the same
  binary64 value as the threshold \<open>0.6\<close>, and is not.
\<close>

theorem match_iff_above_threshold_witness:
  "recognize [Fin 1, Fin 0] [candidate 1 [Fin 1, Fin 0], candidate 2 [Fin 0, Fin 1]] =
     Match (candidate 1 [Fin 1, Fin 0]) (Fin 1) \<and>
   best_score (Fin 1)
     (scores [Fin 1, Fin 0] [candidate 1 [Fin 1, Fin 0], candidate 2 [Fin 0, Fin 1]]) \<and>
   js_gt (Fin 1) confidenceThreshold \<and>
   scores [Fin 3, Fin 4] [candidate 1 [Fin 1, Fin 0]] = [confidenceThreshold] \<and>
   \<not> (\<exists>p s. recognize [Fin 3, Fin 4] [candidate 1 [Fin 1, Fin 0]] = Match p s)"
proof -
  let ?rows = "[candidate 1 [Fin 1, Fin 0], candidate 2 [Fin 0, Fin 1]]"
  have a: "recognize [Fin 1, Fin 0] ?rows = Match (candidate 1 [Fin 1, Fin 0]) (Fin 1)"
    by (simp add: recognize_def candidate_def calculateSimilarity_fold confidenceThreshold_value
        Let_def)
  have b: "scores [Fin 3, Fin 4] [candidate 1 [Fin 1, Fin 0]] = [confidenceThreshold]"
    by (simp add: candidate_def calculateSimilarity_fold confidenceThreshold_def)
  have c: "\<not> js_gt confidenceThreshold confidenceThreshold"
    by (simp add: confidenceThreshold_value)
  from a match_iff_above_threshold [of "[Fin 1, Fin 0]" ?rows]
  have d: "best_score (Fin 1) (scores [Fin 1, Fin 0] ?rows) \<and> js_gt (Fin 1) confidenceThreshold"
    by blast
  from b c match_iff_above_threshold [of "[Fin 3, Fin 4]" "[candidate 1 [Fin 1, Fin 0]]"]
  have e: "\<not> (\<exists>p s. recognize [Fin 3, Fin 4] [candidate 1 [Fin 1, Fin 0]] = Match p s)"
    by simp
  from a b d e show ?thesis by simp
qed

text \<open>
  Claim C2, as amended. When no eligible candidate scores strictly above the
  threshold, the answer is \<open>NoMatch\<close> carrying the greatest of 0 and the scores of the
  eligible candidates: a number that is at least 0, that no score exceeds, and that is
  0 or one of the scores. It is the best score observed whenever some candidate scores
  at least 0.
\<close>

theorem nomatch_carries_best:
  assumes "\<forall>s\<in>set (scores q rows). \<not> js_gt s confidenceThreshold"
  shows "\<exists>s. recognize q rows = NoMatch s \<and> js_ge s (Fin 0) \<and>
           (s = Fin 0 \<or> s \<in> set (scores q rows)) \<and>
           (\<forall>t\<in>set (scores q rows). \<not> js_gt t s) \<and>
           ((\<exists>t\<in>set (scores q rows). js_ge t (Fin 0)) \<longrightarrow> best_score s (scores q rows))"
proof (cases q rows rule: recognize_cases)
  case untouched
  have "best_score (Fin 0) (scores q rows)" if "t \<in> set (scores q rows)" "js_ge t (Fin 0)" for t
  proof -
    have "t = Fin 0" using that untouched(3) js_ge_zero_not_gt by blast
    with that(1) untouched(3) show ?thesis by (simp add: best_score_def)
  qed
  with untouched(2,3) show ?thesis by auto
next
  case (selected pre p post f)
  let ?s = "calculateSimilarity q f"
  have best: "best_score ?s (scores q rows)"
    using selected(1,2,4,5,6) by (rule selected_best)
  then have mem: "?s \<in> set (scores q rows)"
    and ub: "\<forall>t\<in>set (scores q rows). \<not> js_gt t ?s"
    by (simp_all add: best_score_def)
  from mem assms have "\<not> js_gt ?s confidenceThreshold" by blast
  with selected(7) have res: "recognize q rows = NoMatch ?s" by simp
  have "js_ge ?s (Fin 0)" using selected(4) by (rule js_gt_imp_ge)
  with res mem ub best show ?thesis by blast
qed

theorem nomatch_carries_best_witness:
  "scores [Fin 3, Fin 4] [candidate 1 [Fin (- 3), Fin (- 4)], candidate 2 [Fin 1, Fin 0]] =
     [Fin (- 1), confidenceThreshold] \<and>
   (\<exists>s. recognize [Fin 3, Fin 4]
           [candidate 1 [Fin (- 3), Fin (- 4)], candidate 2 [Fin 1, Fin 0]] = NoMatch s \<and>
        js_ge s (Fin 0) \<and> s = confidenceThreshold)"
proof -
  have sc: "scores [Fin 3, Fin 4]
      [candidate 1 [Fin (- 3), Fin (- 4)], candidate 2 [Fin 1, Fin 0]] =
     [Fin (- 1), confidenceThreshold]"
    by (simp add: candidate_def calculateSimilarity_fold confidenceThreshold_def)
  then have h: "\<forall>s\<in>set (scores [Fin 3, Fin 4]
      [candidate 1 [Fin (- 3), Fin (- 4)], candidate 2 [Fin 1, Fin 0]]). \<not> js_gt s confidenceThreshold"
    by (simp add: confidenceThreshold_value)
  have "js_ge confidenceThreshold (Fin 0)" "confidenceThreshold \<noteq> Fin 0"
    "confidenceThreshold \<noteq> Fin (- 1)" "\<not> js_gt confidenceThreshold (Fin (- 1)) \<longrightarrow> False"
    by (simp_all add: confidenceThreshold_value)
  with nomatch_carries_best [OF h] sc show ?thesis by (auto simp: best_score_def)
qed

text \<open>
  The claim as stated asks for the maximum observed score. The query \<open>[1, 0]\<close> against
  the single vector \<open>[-1, 0]\<close> scores -1, below the threshold, and the answer carries
  the initial value 0 of the running best, which no candidate scored.
\<close>

theorem nomatch_not_observed_maximum:
  "scores [Fin 1, Fin 0] [candidate 1 [Fin (- 1), Fin 0]] = [Fin (- 1)] \<and>
   \<not> js_gt (Fin (- 1)) confidenceThreshold \<and>
   recognize [Fin 1, Fin 0] [candidate 1 [Fin (- 1), Fin 0]] = NoMatch (Fin 0) \<and>
   Fin 0 \<noteq> Fin (- 1)"
  by (simp add: recognize_def candidate_def calculateSimilarity_fold confidenceThreshold_value)

text \<open>
  Claim C4. The score carried in the answer is at least 0. A matched candidate scores
  strictly above 0, so a candidate whose score is at most 0, or NaN, is never the
  match; and the score of a \<open>NoMatch\<close> is the initial 0 or the score, strictly above
  0, of some candidate. The running best starts at 0 and changes only on a strict
  increase.
\<close>

theorem running_best_positive:
  "js_ge (score (recognize q rows)) (Fin 0) \<and>
   (\<forall>p s. recognize q rows = Match p s \<longrightarrow>
      p \<in> set rows \<and> js_gt s (Fin 0) \<and> (\<exists>f. features p = Some f \<and> s = calculateSimilarity q f)) \<and>
   (\<forall>s. recognize q rows = NoMatch s \<longrightarrow>
      s = Fin 0 \<or> (js_gt s (Fin 0) \<and> s \<in> set (scores q rows))) \<and>
   (\<forall>p\<in>set rows. \<forall>f s. features p = Some f \<longrightarrow>
      \<not> js_gt (calculateSimilarity q f) (Fin 0) \<longrightarrow> recognize q rows \<noteq> Match p s)"
proof (cases q rows rule: recognize_cases)
  case untouched
  then show ?thesis by simp
next
  case (selected pre p post f)
  let ?s = "calculateSimilarity q f"
  have ge: "js_ge ?s (Fin 0)" using selected(4) by (rule js_gt_imp_ge)
  have mem: "?s \<in> set (scores q rows)"
    using selected(1,2) by (simp add: scores_mid)
  have p: "p \<in> set rows" using selected(1) by simp
  show ?thesis
  proof (cases "js_gt ?s confidenceThreshold")
    case True
    with selected(7) have r: "recognize q rows = Match p ?s" by simp
    show ?thesis using r ge p selected(2,4) by auto
  next
    case False
    with selected(7) have r: "recognize q rows = NoMatch ?s" by simp
    show ?thesis using r ge mem selected(4) by simp
  qed
qed

text \<open>
  The query \<open>[1, 0]\<close> against vectors that score -1, NaN, 0 and 1, in this order: the
  first three leave the running best at 0, the fourth is matched.
\<close>

theorem running_best_positive_witness:
  "scores [Fin 1, Fin 0]
     [candidate 1 [Fin (- 1), Fin 0], candidate 2 [Fin 0, Fin 0],
      candidate 3 [Fin 0, Fin 1], candidate 4 [Fin 1, Fin 0]] = [Fin (- 1), NaN, Fin 0, Fin 1] \<and>
   recognize [Fin 1, Fin 0]
     [candidate 1 [Fin (- 1), Fin 0], candidate 2 [Fin 0, Fin 0],
      candidate 3 [Fin 0, Fin 1], candidate 4 [Fin 1, Fin 0]] = Match (candidate 4 [Fin 1, Fin 0]) (Fin 1) \<and>
   js_gt (Fin 1) (Fin 0) \<and>
   js_ge (score (recognize [Fin 1, Fin 0]
     [candidate 1 [Fin (- 1), Fin 0], candidate 2 [Fin 0, Fin 0],
      candidate 3 [Fin 0, Fin 1], candidate 4 [Fin 1, Fin 0]])) (Fin 0)"
proof -
  let ?rows = "[candidate 1 [Fin (- 1), Fin 0], candidate 2 [Fin 0, Fin 0],
      candidate 3 [Fin 0, Fin 1], candidate 4 [Fin 1, Fin 0]]"
  have sc: "scores [Fin 1, Fin 0] ?rows = [Fin (- 1), NaN, Fin 0, Fin 1]"
    by (simp add: candidate_def calculateSimilarity_fold)
  have r: "recognize [Fin 1, Fin 0] ?rows = Match (candidate 4 [Fin 1, Fin 0]) (Fin 1)"
    by (simp add: recognize_def candidate_def calculateSimilarity_fold confidenceThreshold_value Let_def)
  from running_best_positive [of "[Fin 1, Fin 0]" ?rows]
  have "js_ge (score (recognize [Fin 1, Fin 0] ?rows)) (Fin 0)" by blast
  with sc r show ?thesis by simp
qed

text \<open>
  Claim C7. The candidate the loop selects is the first one, in input order, that
  attains the best score: every eligible candidate before it scores strictly less (or
  NaN), and none after it scores more. The selection is a function of the query and
  the rows, so it is the same on every run with the same input.
\<close>

theorem first_encountered_wins:
  assumes "recognize q rows = Match p s \<or> scan q rows (None, Fin 0) = (Some p, s)"
  shows "\<exists>pre post f. rows = pre @ p # post \<and> features p = Some f \<and>
           s = calculateSimilarity q f \<and>
           (\<forall>t\<in>set (scores q pre). \<not> js_ge t s) \<and>
           (\<forall>t\<in>set (scores q post). \<not> js_gt t s) \<and>
           recognize q rows = (if js_gt s confidenceThreshold then Match p s else NoMatch s)"
proof (cases q rows rule: recognize_cases)
  case untouched
  with assms show ?thesis by simp
next
  case (selected pre p' post f)
  from assms selected(3,7) have "p' = p \<and> calculateSimilarity q f = s"
    by (auto split: if_splits)
  with selected show ?thesis by blast
qed

text \<open>
  The query \<open>[1, 0]\<close> against vectors that score 0, 1 and 1: the rows 2 and 3 tie, and
  row 2, met first, is the match.
\<close>

theorem first_encountered_wins_witness:
  "scores [Fin 1, Fin 0]
     [candidate 1 [Fin 0, Fin 1], candidate 2 [Fin 1, Fin 0], candidate 3 [Fin 1, Fin 0]] =
     [Fin 0, Fin 1, Fin 1] \<and>
   recognize [Fin 1, Fin 0]
     [candidate 1 [Fin 0, Fin 1], candidate 2 [Fin 1, Fin 0], candidate 3 [Fin 1, Fin 0]] =
     Match (candidate 2 [Fin 1, Fin 0]) (Fin 1) \<and>
   (\<exists>pre post.
      [candidate 1 [Fin 0, Fin 1], candidate 2 [Fin 1, Fin 0], candidate 3 [Fin 1, Fin 0]] =
        pre @ candidate 2 [Fin 1, Fin 0] # post \<and>
      (\<forall>t\<in>set (scores [Fin 1, Fin 0] pre). \<not> js_ge t (Fin 1)))"
proof -
  let ?rows = "[candidate 1 [Fin 0, Fin 1], candidate 2 [Fin 1, Fin 0], candidate 3 [Fin 1, Fin 0]]"
  have sc: "scores [Fin 1, Fin 0] ?rows = [Fin 0, Fin 1, Fin 1]"
    by (simp add: candidate_def calculateSimilarity_fold)
  have r: "recognize [Fin 1, Fin 0] ?rows = Match (candidate 2 [Fin 1, Fin 0]) (Fin 1)"
    by (simp add: recognize_def candidate_def calculateSimilarity_fold confidenceThreshold_value Let_def)
  then have h: "recognize [Fin 1, Fin 0] ?rows = Match (candidate 2 [Fin 1, Fin 0]) (Fin 1) \<or>
      scan [Fin 1, Fin 0] ?rows (None, Fin 0) = (Some (candidate 2 [Fin 1, Fin 0]), Fin 1)"
    by simp
  from first_encountered_wins [OF h] sc r show ?thesis by blast
qed

section \<open>Exceptions and the values returned\<close>




end
